theory Spec2Isabelle
  imports Main "HOL-Library.Word"
begin

unbundle bit_operations_syntax

section \<open>Data model\<close>

text \<open>
  The package runs on a 64-bit platform (the tests write the words
  \<open>0x9900AABBCCDDEEFF\<close> into a \<open>uint\<close>), so Go's \<open>uint\<close> is a 64-bit word
  and \<open>bits.UintSize\<close> is 64.  A \<open>SubtleInt\<close> is a slice of such words, least
  significant word first; a byte slice is a list of 8-bit words; a \<open>*big.Int\<close>
  is an unbounded integer.
\<close>

type_synonym uint = "64 word"
type_synonym byte = "8 word"
type_synonym SubtleInt = "uint list"
type_synonym point = "int \<times> int"

text \<open>
  Every panic, every returned error and every \<open>errors.Wrap\<close> of the source is a
  value of this type.
\<close>

datatype error =
    SizeMismatch
  | CanNotHappen
  | IndexOutOfRange
  | DivisionByZero
  | ReadError
  | InvalidPrivateKey
  | UnsupportedCurve string
  | SharedSecretAtInfinity
  | Wrap error string

text \<open>
  \<open>elliptic.CurveParams\<close> (the fields the package reads) and the
  \<open>elliptic.Curve\<close> interface (the methods the package calls).  The identity of
  the curve value, which \<open>cofactor\<close> switches on, is \<open>Id\<close>.  The curve arithmetic
  itself belongs to the standard library and is a parameter here.
\<close>

datatype curve_id = P224 | P256 | P384 | P521 | OtherCurve

record CurveParams =
  N :: int
  Name :: string

record Curve =
  Id :: curve_id
  Params :: CurveParams
  Add :: "point \<Rightarrow> point \<Rightarrow> point"
  ScalarMult :: "point \<Rightarrow> byte list \<Rightarrow> point"
  ScalarBaseMult :: "byte list \<Rightarrow> point"

section \<open>Standard library: math/big and io\<close>

text \<open>\<open>(*big.Int).SetBytes\<close>: the big-endian unsigned integer of a byte slice.\<close>

definition big_SetBytes :: "byte list \<Rightarrow> int" where
  "big_SetBytes buf = foldl (\<lambda>acc b. acc * 256 + uint b) 0 buf"

text \<open>\<open>(*big.Int).Bytes\<close>: the shortest big-endian encoding of the absolute value.\<close>

function pos_Bytes :: "int \<Rightarrow> byte list" where
  "pos_Bytes n = (if n \<le> 0 then [] else pos_Bytes (n div 256) @ [of_int (n mod 256)])"
  by pat_completeness auto
termination
  by (relation "measure nat") auto

declare pos_Bytes.simps [simp del]

definition big_Bytes :: "int \<Rightarrow> byte list" where
  "big_Bytes x = pos_Bytes \<bar>x\<bar>"

text \<open>\<open>(*big.Int).BitLen\<close>: the length of the absolute value in bits.\<close>

function pos_BitLen :: "int \<Rightarrow> nat" where
  "pos_BitLen n = (if n \<le> 0 then 0 else Suc (pos_BitLen (n div 2)))"
  by pat_completeness auto
termination
  by (relation "measure nat") auto

declare pos_BitLen.simps [simp del]

definition BitLen :: "int \<Rightarrow> nat" where
  "BitLen x = pos_BitLen \<bar>x\<bar>"

text \<open>
  The random source is an \<open>io.Reader\<close>.  It is modelled by the bytes it still
  has to deliver; \<open>io.ReadFull\<close> of \<open>k\<close> bytes takes them from the front and fails
  when fewer are left (a short read or any other read error).
\<close>

definition ReadFull :: "byte list \<Rightarrow> nat \<Rightarrow> (byte list \<times> byte list) option" where
  "ReadFull rand k = (if length rand < k then None else Some (take k rand, drop k rand))"

section \<open>subtle.go: constant-time words\<close>

definition selectW :: "uint \<Rightarrow> uint \<Rightarrow> uint \<Rightarrow> uint" where
  "selectW v a b = ((NOT (v - 1)) AND a) OR ((v - 1) AND b)"

definition lessEqW :: "uint \<Rightarrow> uint \<Rightarrow> uint" where
  "lessEqW a b =
     (let msbA = (drop_bit 63 a) AND 1;
          msbB = (drop_bit 63 b) AND 1;
          remA = a AND NOT (push_bit 63 1);
          remB = b AND NOT (push_bit 63 1);
          less = (drop_bit 63 (remA - remB - 1)) AND 1
      in selectW ((msbA XOR msbB) AND 1) msbB less)"

definition lessW :: "uint \<Rightarrow> uint \<Rightarrow> uint" where
  "lessW a b = lessEqW b a XOR 1"

definition addW :: "uint \<Rightarrow> uint \<Rightarrow> uint \<Rightarrow> uint \<times> uint" where
  "addW a b c = (let bc = b + c; z0 = a + bc; z1 = lessW z0 a OR lessW bc b in (z0, z1))"

definition subW :: "uint \<Rightarrow> uint \<Rightarrow> uint \<Rightarrow> uint \<times> uint" where
  "subW a b c = (let bc = b + c; z0 = a - bc; z1 = lessW a z0 OR lessW bc b in (z0, z1))"

section \<open>subtle.go: SubtleInt\<close>

text \<open>
  The methods write into their receiver \<open>z\<close>.  Each loop reads \<open>x[i]\<close> and
  \<open>y[i]\<close> before it writes \<open>z[i]\<close> and never reads another index, so the words
  written are the same whether or not \<open>z\<close> is one of the operands; the model
  returns the new contents of the receiver.  Of the old receiver only the
  length matters.
\<close>

definition SubtleIntSize :: "nat \<Rightarrow> nat" where
  "SubtleIntSize numBits =
     (let wordSize = 64 div 8;
          numBytes = (numBits + 7) div 8;
          numWords = (numBytes + wordSize - 1) div wordSize
      in numWords)"

definition make :: "nat \<Rightarrow> 'a::zero list" where
  "make k = replicate k 0"

fun Add_loop :: "SubtleInt \<Rightarrow> SubtleInt \<Rightarrow> uint \<Rightarrow> SubtleInt \<times> uint" where
  "Add_loop (xi # x) (yi # y) c =
     (let (zi, c') = addW xi yi c; (z, c'') = Add_loop x y c' in (zi # z, c''))"
| "Add_loop _ _ c = ([], c)"

definition Add_si :: "SubtleInt \<Rightarrow> SubtleInt \<Rightarrow> SubtleInt \<Rightarrow> error + (SubtleInt \<times> uint)" where
  "Add_si z x y =
     (if length x \<noteq> length y \<or> length x \<noteq> length z then Inl SizeMismatch
      else Inr (Add_loop x y 0))"

fun Sub_loop :: "SubtleInt \<Rightarrow> SubtleInt \<Rightarrow> uint \<Rightarrow> SubtleInt \<times> uint" where
  "Sub_loop (xi # x) (yi # y) c =
     (let (zi, c') = subW xi yi c; (z, c'') = Sub_loop x y c' in (zi # z, c''))"
| "Sub_loop _ _ c = ([], c)"

definition Sub_si :: "SubtleInt \<Rightarrow> SubtleInt \<Rightarrow> SubtleInt \<Rightarrow> error + (SubtleInt \<times> uint)" where
  "Sub_si z x y =
     (if length x \<noteq> length y \<or> length x \<noteq> length z then Inl SizeMismatch
      else Inr (Sub_loop x y 0))"

definition Select :: "SubtleInt \<Rightarrow> uint \<Rightarrow> SubtleInt \<Rightarrow> SubtleInt \<Rightarrow> error + SubtleInt" where
  "Select z p x y =
     (if length x \<noteq> length y \<or> length x \<noteq> length z then Inl SizeMismatch
      else Inr (map2 (selectW p) x y))"

text \<open>
  \<open>AddMod\<close> also returns the two flags \<open>c1\<close> (carry of the addition) and \<open>c2\<close>
  (borrow of the subtraction), which the source keeps in local variables.
\<close>

definition AddMod_flags ::
  "SubtleInt \<Rightarrow> SubtleInt \<Rightarrow> SubtleInt \<Rightarrow> SubtleInt \<Rightarrow> error + (SubtleInt \<times> uint \<times> uint)" where
  "AddMod_flags z x y n =
     (let tmp = make (length x) in
      case Add_si z x y of Inl e \<Rightarrow> Inl e | Inr (z1, c1) \<Rightarrow>
      case Sub_si tmp z1 n of Inl e \<Rightarrow> Inl e | Inr (tmp1, c2) \<Rightarrow>
      if c1 AND NOT c2 = 1 then Inl CanNotHappen
      else case Select z1 (c1 XOR c2) z1 tmp1 of Inl e \<Rightarrow> Inl e
           | Inr z2 \<Rightarrow> Inr (z2, c1, c2))"

definition AddMod :: "SubtleInt \<Rightarrow> SubtleInt \<Rightarrow> SubtleInt \<Rightarrow> SubtleInt \<Rightarrow> error + SubtleInt" where
  "AddMod z x y n = (case AddMod_flags z x y n of Inl e \<Rightarrow> Inl e | Inr (z2, c1, c2) \<Rightarrow> Inr z2)"

fun Less_loop :: "(uint \<times> uint) list \<Rightarrow> uint \<Rightarrow> uint \<Rightarrow> uint" where
  "Less_loop [] undecided isLess = isLess"
| "Less_loop ((zi, yi) # ps) undecided isLess =
     (let less1 = lessW zi yi;
          less2 = lessW yi zi;
          notequal = less1 OR less2;
          isLess' = selectW (undecided AND notequal) less1 isLess;
          undecided' = undecided AND NOT notequal
      in Less_loop ps undecided' isLess')"

text \<open>The loop of \<open>Less\<close> runs from the last index down to 0.\<close>

definition Less :: "SubtleInt \<Rightarrow> SubtleInt \<Rightarrow> error + uint" where
  "Less z y =
     (if length z \<noteq> length y then Inl SizeMismatch
      else Inr (Less_loop (rev (zip z y)) 1 0))"

definition SetZero :: "SubtleInt \<Rightarrow> SubtleInt" where
  "SetZero z = map (\<lambda>_. 0) z"

text \<open>
  \<open>SetBytes\<close>: \<open>i\<close> is the word index (an \<open>int\<close>, it reaches \<open>-1\<close>), \<open>s\<close> the
  shift, which stays between 8 and 64.  Indexing outside the slice panics.
\<close>

fun SetBytes_loop :: "SubtleInt \<Rightarrow> int \<Rightarrow> nat \<Rightarrow> byte list \<Rightarrow> error + SubtleInt" where
  "SetBytes_loop z i s [] = Inr z"
| "SetBytes_loop z i s (x # buf) =
     (let s1 = s - 8 in
      if i < 0 \<or> int (length z) \<le> i then Inl IndexOutOfRange
      else
        let z1 = z[nat i := (z ! nat i) OR push_bit s1 (ucast x)] in
        if s1 = 0 then SetBytes_loop z1 (i - 1) 64 buf
        else SetBytes_loop z1 i s1 buf)"

definition SetBytes :: "SubtleInt \<Rightarrow> byte list \<Rightarrow> error + SubtleInt" where
  "SetBytes z buf = SetBytes_loop (SetZero z) (int (length z) - 1) 64 buf"

text \<open>
  \<open>Bytes\<close>: the result is filled from its last index backwards, eight bytes
  per word, low byte first.
\<close>

definition wordBytes :: "uint \<Rightarrow> byte list" where
  "wordBytes x = rev (map (\<lambda>k. ucast (drop_bit (8 * k) x)) [0..<8])"

fun Bytes :: "SubtleInt \<Rightarrow> byte list" where
  "Bytes [] = []"
| "Bytes (x # z) = Bytes z @ wordBytes x"

definition Big :: "SubtleInt \<Rightarrow> int" where
  "Big z = big_SetBytes (Bytes z)"

text \<open>
  The number a word slice stands for, least significant word first.  This is
  the yardstick of the proofs; that \<open>Big\<close> computes it is a lemma.
\<close>

fun val :: "SubtleInt \<Rightarrow> nat" where
  "val [] = 0"
| "val (w # ws) = unat w + 2 ^ 64 * val ws"

section \<open>elliptic.go: key generation and blinding\<close>

definition genMask :: "byte list" where
  "genMask = [0xff, 0x1, 0x3, 0x7, 0xf, 0x1f, 0x3f, 0x7f]"

text \<open>
  The loop of \<open>GenerateKey\<close>.  \<open>priv[0]\<close> and \<open>priv[1]\<close> panic when the buffer
  has fewer than two bytes.  The result carries the bytes the reader has left.
\<close>

function GenerateKey_loop ::
  "nat \<Rightarrow> nat \<Rightarrow> SubtleInt \<Rightarrow> byte list \<Rightarrow> error + (byte list \<times> byte list)" where
  "GenerateKey_loop numBits numBytes constN rand =
     (case ReadFull rand numBytes of
        None \<Rightarrow> Inl (Wrap ReadError ''failed to generate random data'')
      | Some (priv, rand') \<Rightarrow>
          if numBytes < 2 then Inl IndexOutOfRange
          else
            let priv1 = priv[0 := (priv ! 0) AND (genMask ! (numBits mod 8))];
                priv2 = priv1[1 := (priv1 ! 1) XOR 0x42]
            in case SetBytes (make (length constN)) priv2 of
                 Inl e \<Rightarrow> Inl e
               | Inr tmp \<Rightarrow>
                   (case Less tmp constN of
                      Inl e \<Rightarrow> Inl e
                    | Inr l \<Rightarrow>
                        if l = 1 then Inr (priv2, rand')
                        else GenerateKey_loop numBits numBytes constN rand'))"
  by pat_completeness auto
termination
  by (relation "measure (\<lambda>(numBits, numBytes, constN, rand). length rand)")
     (auto simp add: ReadFull_def split: if_splits)

declare GenerateKey_loop.simps [simp del]

definition GenerateKey :: "CurveParams \<Rightarrow> byte list \<Rightarrow> error + (byte list \<times> byte list)" where
  "GenerateKey params rand =
     (let numBits = BitLen (N params);
          numBytes = (numBits + 7) div 8
      in case SetBytes (make (SubtleIntSize numBits)) (big_Bytes (N params)) of
           Inl e \<Rightarrow> Inl e
         | Inr constN \<Rightarrow> GenerateKey_loop numBits numBytes constN rand)"

definition BlindKey ::
  "byte list \<Rightarrow> CurveParams \<Rightarrow> byte list \<Rightarrow> error + (byte list \<times> byte list \<times> byte list)" where
  "BlindKey priv params rand =
     (let numBytes = (BitLen (N params) + 7) div 8 in
      case SetBytes (make (SubtleIntSize (8 * numBytes))) (big_Bytes (N params)) of
        Inl e \<Rightarrow> Inl e
      | Inr n \<Rightarrow>
      if length priv > numBytes then Inl InvalidPrivateKey
      else
      case SetBytes (make (length n)) priv of Inl e \<Rightarrow> Inl e | Inr privConst \<Rightarrow>
      case GenerateKey params rand of
        Inl e \<Rightarrow> Inl (Wrap e ''failed to generate blind key'')
      | Inr (blindBytes, rand') \<Rightarrow>
      case SetBytes (make (length n)) blindBytes of Inl e \<Rightarrow> Inl e | Inr blind \<Rightarrow>
      case SetBytes (make (length n)) priv of Inl e \<Rightarrow> Inl e | Inr privNew \<Rightarrow>
      case AddMod privNew privNew blind n of Inl e \<Rightarrow> Inl e | Inr privNew1 \<Rightarrow>
      case Sub_si blind n blind of Inl e \<Rightarrow> Inl e | Inr (blind1, borrow) \<Rightarrow>
        Inr (take numBytes (Bytes privNew1), take numBytes (Bytes blind1), rand'))"

section \<open>mqv.go\<close>

definition one :: int where
  "one = 1"

definition cofactor :: "Curve \<Rightarrow> error + int" where
  "cofactor curve =
     (case Id curve of
        P224 \<Rightarrow> Inr one
      | P256 \<Rightarrow> Inr one
      | P384 \<Rightarrow> Inr one
      | P521 \<Rightarrow> Inr one
      | OtherCurve \<Rightarrow> Inl (UnsupportedCurve (Name (Params curve))))"

text \<open>
  \<open>big.Int\<close>'s \<open>And\<close> treats a negative operand as an infinite two's complement
  number, as \<open>AND\<close> on \<open>int\<close> does.
\<close>

definition avf :: "int \<Rightarrow> CurveParams \<Rightarrow> int" where
  "avf x params =
     (let f = BitLen (N params);
          b = push_bit ((f + 1) div 2) one;
          v = b - one;
          v = v AND x;
          v = v + b
      in v)"

text \<open>
  \<open>(*big.Int).Mod\<close> is the Euclidean modulus and panics on a zero modulus.
\<close>

definition big_Mod :: "int \<Rightarrow> int \<Rightarrow> error + int" where
  "big_Mod x m = (if m = 0 then Inl DivisionByZero else Inr (x mod \<bar>m\<bar>))"

definition mqvSig :: "byte list \<Rightarrow> byte list \<Rightarrow> int \<Rightarrow> Curve \<Rightarrow> int \<Rightarrow> error + byte list" where
  "mqvSig ownStaticPriv ownEphemeralPriv ownEphemeralX curve h =
     (let params = Params curve;
          ownStaticPrivInt = big_SetBytes ownStaticPriv;
          ownEphemeralPrivInt = big_SetBytes ownEphemeralPriv;
          implSig = avf ownEphemeralX params;
          implSig = implSig * ownStaticPrivInt;
          implSig = implSig + ownEphemeralPrivInt
      in case big_Mod implSig (N params) of
           Inl e \<Rightarrow> Inl e
         | Inr implSig \<Rightarrow> Inr (big_Bytes (implSig * h)))"

definition mqvBase :: "int \<Rightarrow> int \<Rightarrow> int \<Rightarrow> int \<Rightarrow> Curve \<Rightarrow> point" where
  "mqvBase otherStaticX otherStaticY otherEphemeralX otherEphemeralY curve =
     (let avfOther = avf otherEphemeralX (Params curve);
          avfOtherBytes = big_Bytes avfOther;
          a = ScalarMult curve (otherStaticX, otherStaticY) avfOtherBytes
      in Add curve (otherEphemeralX, otherEphemeralY) a)"

definition MQV ::
  "byte list \<Rightarrow> byte list \<Rightarrow> int \<Rightarrow> int \<Rightarrow> int \<Rightarrow> int \<Rightarrow> int \<Rightarrow> Curve \<Rightarrow> error + point" where
  "MQV ownStaticPriv ownEphemeralPriv ownEphemeralX
       otherStaticX otherStaticY otherEphemeralX otherEphemeralY curve =
     (case cofactor curve of
        Inl e \<Rightarrow> Inl (Wrap e ''failed to get cofactor'')
      | Inr h \<Rightarrow>
      case mqvSig ownStaticPriv ownEphemeralPriv ownEphemeralX curve h of
        Inl e \<Rightarrow> Inl e
      | Inr s \<Rightarrow>
        let b = mqvBase otherStaticX otherStaticY otherEphemeralX otherEphemeralY curve;
            (x, y) = ScalarMult curve b s
        in if x = 0 then Inl SharedSecretAtInfinity else Inr (x, y))"

definition BlindMQV ::
  "byte list \<Rightarrow> byte list \<Rightarrow> int \<Rightarrow> int \<Rightarrow> int \<Rightarrow> int \<Rightarrow> int \<Rightarrow> Curve \<Rightarrow> byte list
     \<Rightarrow> error + (point \<times> byte list)" where
  "BlindMQV ownStaticPriv ownEphemeralPriv ownEphemeralX
       otherStaticX otherStaticY otherEphemeralX otherEphemeralY curve rand =
     (let params = Params curve in
      case cofactor curve of
        Inl e \<Rightarrow> Inl (Wrap e ''failed to get cofactor'')
      | Inr h \<Rightarrow>
      case BlindKey ownStaticPriv params rand of
        Inl e \<Rightarrow> Inl (Wrap e ''failed to blind static key'')
      | Inr (ownStaticPrivNew, ownStaticPrivRev, rand1) \<Rightarrow>
      case BlindKey ownEphemeralPriv params rand1 of
        Inl e \<Rightarrow> Inl (Wrap e ''failed to blind ephemeral key'')
      | Inr (ownEphemeralPrivNew, ownEphemeralPrivRev, rand2) \<Rightarrow>
        let b = mqvBase otherStaticX otherStaticY otherEphemeralX otherEphemeralY curve in
        case mqvSig ownStaticPrivNew ownEphemeralPrivNew ownEphemeralX curve h of
          Inl e \<Rightarrow> Inl e
        | Inr s1 \<Rightarrow>
        let p1 = ScalarMult curve b s1 in
        case mqvSig ownStaticPrivRev ownEphemeralPrivRev ownEphemeralX curve h of
          Inl e \<Rightarrow> Inl e
        | Inr s2 \<Rightarrow>
        let p2 = ScalarMult curve b s2 in
        Inr (Add curve p1 p2, rand2))"

section \<open>Word-level lemmas\<close>

lemma selectW_1: "selectW 1 a b = a" by (simp add: selectW_def)
lemma selectW_0: "selectW 0 a b = b" by (simp add: selectW_def)

lemma mask_bit: "bit (push_bit 63 (1::uint)) n \<longleftrightarrow> n = 63"
  by (auto simp only: bit_simps possible_bit_word len_bit0 len_num1 One_nat_def) 

lemma rem_val: "(a::uint) AND NOT (push_bit 63 1) = take_bit 63 a"
  apply (rule bit_word_eqI) 
  apply (simp only: bit_and_iff bit_not_iff mask_bit bit_take_bit_iff)
  apply auto
  done

lemma msb_bit: "(drop_bit 63 (a::uint)) AND 1 = of_bool (bit a 63)"
  by (rule bit_word_eqI) (auto simp add: bit_simps)

lemma int_mod_wrap: "- m \<le> x \<Longrightarrow> x < 0 \<Longrightarrow> (x::int) mod m = x + m"
proof -
  assume a: "- m \<le> x" "x < 0"
  have "(x + m) mod m = x + m" using a by (intro mod_pos_pos_trivial) simp_all
  then show ?thesis by simp
qed

lemma uint_lt64: "uint (a::uint) < 18446744073709551616"
  using uint_lt2p[of a] by simp

lemma bit63_uint: "bit (a::uint) 63 \<longleftrightarrow> 9223372036854775808 \<le> uint a"
proof -
  have lt: "uint a < 18446744073709551616" by (rule uint_lt64)
  have "bit a 63 \<longleftrightarrow> bit (uint a) 63"
    by (simp add: bit_uint_iff)
  also have "\<dots> \<longleftrightarrow> odd (uint a div 2^63)"
    by (simp only: bit_iff_odd)
  also have "\<dots> \<longleftrightarrow> 9223372036854775808 \<le> uint a"
  proof (cases "9223372036854775808 \<le> uint a")
    case True
    have "uint a div 9223372036854775808 = 1"
      by (rule int_div_pos_eq[where r = "uint a - 9223372036854775808"]) (use True lt in simp_all)
    then show ?thesis using True by simp
  next
    case False
    then have "uint a div 9223372036854775808 = 0" by (simp add: div_pos_pos_trivial)
    then show ?thesis using False by simp
  qed
  finally show ?thesis .
qed

lemma uint_take63: "uint (take_bit 63 (a::uint)) = uint a mod 9223372036854775808"
  by (simp only: unsigned_take_bit_eq) (simp add: take_bit_eq_mod)

lemma rem_less: 
  fixes ra rb :: uint
  assumes "uint ra < 9223372036854775808" "uint rb < 9223372036854775808"
  shows "bit (ra - rb - 1) 63 \<longleftrightarrow> uint ra \<le> uint rb"
proof -
  have nn: "0 \<le> uint ra" "0 \<le> uint rb" by simp_all
  have eq: "uint (ra - rb - 1) = (uint ra - uint rb - 1) mod 18446744073709551616"
    by (simp add: uint_word_ariths mod_diff_left_eq)
  have "9223372036854775808 \<le> uint (ra - rb - 1) \<longleftrightarrow> uint ra \<le> uint rb"
  proof (cases "uint ra \<le> uint rb")
    case True
    have "(uint ra - uint rb - 1) mod 18446744073709551616 = (uint ra - uint rb - 1) + 18446744073709551616"
      using True assms nn by (intro int_mod_wrap) linarith+
    then have "uint (ra - rb - 1) = uint ra - uint rb - 1 + 18446744073709551616"
      by (simp only: eq)
    then show ?thesis using True assms nn by linarith
  next
    case False
    have "(uint ra - uint rb - 1) mod 18446744073709551616 = (uint ra - uint rb - 1)"
      using False assms nn by (intro mod_pos_pos_trivial) linarith+
    then have "uint (ra - rb - 1) = uint ra - uint rb - 1"
      by (simp only: eq)
    then show ?thesis using False assms nn by linarith
  qed
  then show ?thesis by (simp only: bit63_uint)
qed

lemma uint_split63: "uint (a::uint) = (if bit a 63 then 9223372036854775808 else 0) + uint (take_bit 63 a)"
proof (cases "bit a 63")
  case True
  then have "9223372036854775808 \<le> uint a" by (simp only: bit63_uint)
  then have "0 \<le> uint a - 9223372036854775808" "uint a - 9223372036854775808 < 9223372036854775808"
    using uint_lt64[of a] by linarith+
  then have "(uint a - 9223372036854775808) mod 9223372036854775808 = uint a - 9223372036854775808"
    by (rule mod_pos_pos_trivial)
  moreover have "(uint a - 9223372036854775808) mod 9223372036854775808 = uint a mod 9223372036854775808"
    by simp
  ultimately have "uint a mod 9223372036854775808 = uint a - 9223372036854775808"
    by (simp only:)
  then show ?thesis using True by (simp add: uint_take63)
next
  case False
  then have "uint a < 9223372036854775808" by (simp add: bit63_uint)
  then have "uint a mod 9223372036854775808 = uint a"
    by (intro mod_pos_pos_trivial) simp_all
  then show ?thesis using False by (simp add: uint_take63)
qed

lemma lessEqW_correct: "lessEqW a b = of_bool (a \<le> b)"
proof -
  let ?ra = "take_bit 63 a" and ?rb = "take_bit 63 b"
  have ra: "uint ?ra < 9223372036854775808" and rb: "uint ?rb < 9223372036854775808"
    unfolding uint_take63 by simp_all
  have nn: "0 \<le> uint ?ra" "0 \<le> uint ?rb" by simp_all
  have h1: "uint ?ra \<le> 9223372036854775808 + uint ?rb" using ra rb nn by linarith
  have h2: "\<not> 9223372036854775808 + uint ?ra \<le> uint ?rb" using ra rb nn by linarith
  have sel: "selectW ((of_bool p XOR of_bool q) AND 1) x y = (if p = q then y else x)" for p q x y
    by (cases p; cases q) (simp_all add: selectW_0 selectW_1)
  have "lessEqW a b = (if bit a 63 = bit b 63 then of_bool (uint ?ra \<le> uint ?rb) else of_bool (bit b 63))"
    unfolding lessEqW_def Let_def rem_val msb_bit sel rem_less[OF ra rb] by simp
  also have "\<dots> = of_bool (uint a \<le> uint b)"
    using uint_split63[of a] uint_split63[of b] h1 h2
    by (cases "bit a 63"; cases "bit b 63") simp_all
  finally show ?thesis by (simp add: word_le_def)
qed

lemma lessW_correct: "lessW a b = of_bool (a < b)"
  unfolding lessW_def lessEqW_correct by auto

lemma unat_lt64: "unat (a::uint) < 18446744073709551616"
  using unsigned_less[of a, where 'a=nat] by simp





section \<open>Slices of words\<close>

lemma val_bound: "val z < 2 ^ (64 * length z)"
proof (induction z)
  case Nil
  then show ?case by simp
next
  case (Cons w ws)
  have "unat w < 2 ^ 64" using unat_lt64[of w] by simp
  moreover have "val ws + 1 \<le> 2 ^ (64 * length ws)" using Cons.IH by simp
  then have "2 ^ 64 * (val ws + 1) \<le> (2::nat) ^ 64 * 2 ^ (64 * length ws)"
    by (rule mult_le_mono2)
  ultimately have "unat w + 2 ^ 64 * val ws < 2 ^ 64 * 2 ^ (64 * length ws)"
    by simp
  then show ?case by (simp add: power_add)
qed






lemma val_append: "val (a @ b) = val a + 2 ^ (64 * length a) * val b"
  by (induction a) (simp_all add: power_add algebra_simps)

lemma val_rev_Cons: "val (rev (w # ws)) = val (rev ws) + 2 ^ (64 * length ws) * unat w"
  by (simp add: val_append)

lemma Less_loop_correct:
  assumes "u = 0 \<or> u = 1" "l = 0 \<or> l = 1"
  shows "Less_loop ps u l =
     (if u = 1 then
        (if val (rev (map fst ps)) < val (rev (map snd ps)) then 1
         else if val (rev (map snd ps)) < val (rev (map fst ps)) then 0 else l)
      else l)"
  using assms
proof (induction ps arbitrary: u l)
  case Nil
  then show ?case by auto
next
  case (Cons p ps)
  obtain zi yi where p: "p = (zi, yi)" by (cases p)
  let ?M = "(2::nat) ^ (64 * length ps)"
  let ?A = "val (rev (map fst ps))" and ?B = "val (rev (map snd ps))"
  have bA: "?A < ?M" using val_bound[of "rev (map fst ps)"] by simp
  have bB: "?B < ?M" using val_bound[of "rev (map snd ps)"] by simp
  have vA: "val (rev (map fst (p # ps))) = ?A + ?M * unat zi"
    and vB: "val (rev (map snd (p # ps))) = ?B + ?M * unat yi"
    unfolding p by (simp_all add: val_append)
  consider (lt) "zi < yi" | (gt) "yi < zi" | (eq) "zi = yi" by (cases "zi < yi"; cases "yi < zi") auto
  then show ?case
  proof cases
    case lt
    then have "unat zi + 1 \<le> unat yi" by (simp add: word_less_nat_alt)
    then have "?M * (unat zi + 1) \<le> ?M * unat yi" by (rule mult_le_mono2)
    then have cmp: "?A + ?M * unat zi < ?B + ?M * unat yi" using bA by simp
    have step: "Less_loop (p # ps) u l = Less_loop ps 0 (if u = 1 then 1 else l)"
      using lt Cons.prems unfolding p
      by (auto simp add: lessW_correct Let_def selectW_0 selectW_1 not_less_iff_gr_or_eq)
    show ?thesis unfolding step vA vB using cmp Cons.IH[of 0 "if u = 1 then 1 else l"] Cons.prems
      by auto
  next
    case gt
    then have "unat yi + 1 \<le> unat zi" by (simp add: word_less_nat_alt)
    then have "?M * (unat yi + 1) \<le> ?M * unat zi" by (rule mult_le_mono2)
    then have cmp: "?B + ?M * unat yi < ?A + ?M * unat zi" using bB by simp
    have step: "Less_loop (p # ps) u l = Less_loop ps 0 (if u = 1 then 0 else l)"
      using gt Cons.prems unfolding p
      by (auto simp add: lessW_correct Let_def selectW_0 selectW_1 not_less_iff_gr_or_eq)
    show ?thesis unfolding step vA vB using cmp Cons.IH[of 0 "if u = 1 then 0 else l"] Cons.prems
      by auto
  next
    case eq
    have step: "Less_loop (p # ps) u l = Less_loop ps u l"
      using eq Cons.prems unfolding p
      by (auto simp add: lessW_correct Let_def selectW_0 selectW_1)
    show ?thesis unfolding step vA vB using eq Cons.IH[of u l] Cons.prems
      by auto
  qed
qed

lemma Less_correct:
  assumes "length z = length y"
  shows "Less z y = Inr (of_bool (val z < val y))"
proof -
  have "rev (zip z y) = zip (rev z) (rev y)" using assms by (simp add: zip_rev)
  moreover have "map fst (zip (rev z) (rev y)) = rev z" "map snd (zip (rev z) (rev y)) = rev y"
    using assms by simp_all
  ultimately show ?thesis
    using assms Less_loop_correct[of 1 0 "rev (zip z y)"]
    by (simp add: Less_def)
qed

section \<open>Big-endian byte strings\<close>

lemma foldl_be: "foldl (\<lambda>acc b. acc * 256 + uint (b::byte)) a bs = a * 256 ^ length bs + big_SetBytes bs"
proof -
  define f where "f = (\<lambda>acc (b::byte). acc * 256 + uint b)"
  have "foldl f a bs = a * 256 ^ length bs + foldl f 0 bs" for a
  proof (induction bs arbitrary: a)
    case Nil
    then show ?case by simp
  next
    case (Cons b bs)
    have "foldl f a (b # bs) = foldl f (a * 256 + uint b) bs" by (simp add: f_def)
    also have "\<dots> = (a * 256 + uint b) * 256 ^ length bs + foldl f 0 bs" by (rule Cons.IH)
    finally have 1: "foldl f a (b # bs) = (a * 256 + uint b) * 256 ^ length bs + foldl f 0 bs" .
    have "foldl f 0 (b # bs) = foldl f (uint b) bs" by (simp add: f_def)
    also have "\<dots> = uint b * 256 ^ length bs + foldl f 0 bs" by (rule Cons.IH)
    finally have 2: "foldl f 0 (b # bs) = uint b * 256 ^ length bs + foldl f 0 bs" .
    show ?case unfolding 1 2 by (simp add: algebra_simps)
  qed
  then show ?thesis unfolding big_SetBytes_def f_def .
qed

lemma be_Nil [simp]: "big_SetBytes [] = 0"
  by (simp add: big_SetBytes_def)

lemma be_Cons: "big_SetBytes (b # bs) = uint b * 256 ^ length bs + big_SetBytes bs"
  using foldl_be[of "uint b" bs] by (simp add: big_SetBytes_def)

lemma be_append: "big_SetBytes (xs @ ys) = big_SetBytes xs * 256 ^ length ys + big_SetBytes ys"
  using foldl_be[of "big_SetBytes xs" ys] by (simp add: big_SetBytes_def)

lemma be_nonneg: "0 \<le> big_SetBytes bs"
  by (induction bs) (simp_all add: be_Cons)

lemma uint_byte_lt: "uint (b::byte) < 256"
  using uint_lt2p[of b] by simp

lemma be_bound: "big_SetBytes bs < 256 ^ length bs"
proof (induction bs)
  case Nil
  then show ?case by simp
next
  case (Cons b bs)
  define M :: int where "M = 256 ^ length bs"
  have "uint b \<le> 255" using uint_byte_lt[of b] by simp
  then have "uint b * M \<le> 255 * M"
    unfolding M_def by (intro mult_right_mono) simp_all
  moreover have "big_SetBytes bs < M" using Cons.IH by (simp add: M_def)
  moreover have "big_SetBytes (b # bs) = uint b * M + big_SetBytes bs"
    by (simp add: be_Cons M_def)
  moreover have "(256::int) ^ length (b # bs) = 256 * M" by (simp add: M_def)
  ultimately show ?case by linarith
qed

lemma be_replicate0 [simp]: "big_SetBytes (replicate k 0) = 0"
  by (induction k) (simp_all add: be_Cons)

lemma be_take: "big_SetBytes (take m bs) = big_SetBytes bs div 256 ^ (length bs - m)"
proof -
  have "big_SetBytes bs = big_SetBytes (take m bs) * 256 ^ length (drop m bs) + big_SetBytes (drop m bs)"
    using be_append[of "take m bs" "drop m bs"] by simp
  moreover have "big_SetBytes (drop m bs) < 256 ^ length (drop m bs)" by (rule be_bound)
  moreover have "0 \<le> big_SetBytes (drop m bs)" by (rule be_nonneg)
  ultimately have "big_SetBytes bs div 256 ^ length (drop m bs) = big_SetBytes (take m bs)"
    by (simp add: div_pos_pos_trivial)
  then show ?thesis by simp
qed

lemma be_inj: "length xs = length ys \<Longrightarrow> big_SetBytes xs = big_SetBytes ys \<Longrightarrow> xs = ys"
proof (induction xs ys rule: list_induct2)
  case Nil
  then show ?case by simp
next
  case (Cons x xs y ys)
  let ?M = "(256::int) ^ length xs"
  have e: "uint x * ?M + big_SetBytes xs = uint y * ?M + big_SetBytes ys"
    using Cons.prems Cons.hyps by (simp add: be_Cons)
  have bx: "0 \<le> big_SetBytes xs" "big_SetBytes xs < ?M" by (rule be_nonneg, rule be_bound)
  have bY: "0 \<le> big_SetBytes ys" "big_SetBytes ys < ?M"
    using be_nonneg[of ys] be_bound[of ys] Cons.hyps by simp_all
  have "(uint x * ?M + big_SetBytes xs) div ?M = uint x"
    using bx by (simp add: div_pos_pos_trivial)
  moreover have "(uint y * ?M + big_SetBytes ys) div ?M = uint y"
    using bY by (simp add: div_pos_pos_trivial)
  ultimately have xy: "uint x = uint y" using e by simp
  then have "big_SetBytes xs = big_SetBytes ys" using e by simp
  then show ?case using Cons.IH word_uint_eqI[OF xy] by simp
qed

section \<open>Bytes of a SubtleInt\<close>

lemma uint_ucast_byte: "uint (ucast (drop_bit (8 * k) (x::uint)) :: byte) = (uint x div 2 ^ (8 * k)) mod 256"
proof -
  have "uint (ucast (drop_bit (8 * k) x) :: byte) = take_bit 8 (uint (drop_bit (8 * k) x))"
    by (simp add: unsigned_ucast_eq)
  also have "\<dots> = take_bit 8 (drop_bit (8 * k) (uint x))"
    by (simp only: unsigned_drop_bit_eq unsigned_take_bit_eq[symmetric] take_bit_length_eq)
  also have "\<dots> = (uint x div 2 ^ (8 * k)) mod 256"
    by (simp add: take_bit_eq_mod drop_bit_eq_div)
  finally show ?thesis .
qed

lemma be_wordBytes_aux:
  "big_SetBytes (rev (map (\<lambda>k. ucast (drop_bit (8 * k) (x::uint)) :: byte) [0..<m])) = uint x mod 2 ^ (8 * m)"
proof (induction m)
  case 0
  then show ?case by simp
next
  case (Suc m)
  define f where "f = (\<lambda>k. ucast (drop_bit (8 * k) x) :: byte)"
  have p: "(256::int) ^ m = 2 ^ (8 * m)" by (simp add: power_mult)
  have "big_SetBytes (rev (map f [0..<Suc m])) = uint (f m) * 256 ^ m + big_SetBytes (rev (map f [0..<m]))"
    by (simp add: be_Cons)
  also have "\<dots> = (uint x div 2 ^ (8 * m) mod 256) * 2 ^ (8 * m) + uint x mod 2 ^ (8 * m)"
    using Suc.IH unfolding f_def p uint_ucast_byte by simp
  also have "\<dots> = uint x mod (2 ^ (8 * m) * 256)"
    using zmod_zmult2_eq[of 256 "uint x" "2 ^ (8 * m)"] by (simp add: mult.commute)
  also have "\<dots> = uint x mod 2 ^ (8 * Suc m)"
    by (simp add: power_add mult.commute)
  finally show ?case unfolding f_def .
qed

lemma length_wordBytes [simp]: "length (wordBytes x) = 8"
  by (simp add: wordBytes_def)

lemma be_wordBytes: "big_SetBytes (wordBytes x) = uint x"
proof -
  have "uint x mod 2 ^ (8 * 8) = uint x"
    using uint_lt2p[of x] by (intro mod_pos_pos_trivial) simp_all
  then show ?thesis unfolding wordBytes_def be_wordBytes_aux[of x 8] .
qed

lemma length_Bytes [simp]: "length (Bytes z) = 8 * length z"
  by (induction z) simp_all

lemma be_Bytes: "big_SetBytes (Bytes z) = int (val z)"
  by (induction z) (simp_all add: be_append be_wordBytes power_mult)

lemma Big_val: "Big z = int (val z)"
  by (simp add: Big_def be_Bytes)

section \<open>SetBytes\<close>

lemma val_update:
  "i < length z \<Longrightarrow> val (z[i := w]) + 2 ^ (64 * i) * unat (z ! i) = val z + 2 ^ (64 * i) * unat w"
proof (induction z arbitrary: i)
  case Nil
  then show ?case by simp
next
  case (Cons a z)
  show ?case
  proof (cases i)
    case 0
    then show ?thesis by simp
  next
    case (Suc k)
    have k: "k < length z" using Cons.prems Suc by simp
    have "val ((a # z)[i := w]) + 2 ^ (64 * i) * unat ((a # z) ! i)
        = unat a + 2 ^ 64 * (val (z[k := w]) + 2 ^ (64 * k) * unat (z ! k))"
      unfolding Suc by (simp add: power_add algebra_simps)
    also have "\<dots> = unat a + 2 ^ 64 * (val z + 2 ^ (64 * k) * unat w)"
      by (simp only: Cons.IH[OF k])
    also have "\<dots> = val (a # z) + 2 ^ (64 * i) * unat w"
      unfolding Suc by (simp add: power_add algebra_simps)
    finally show ?thesis .
  qed
qed

lemma val_all_zero: "(\<forall>j < length z. z ! j = 0) \<Longrightarrow> val z = 0"
proof (induction z)
  case Nil
  then show ?case by simp
next
  case (Cons a z)
  have "a = 0" using Cons.prems by auto
  moreover have "\<forall>j < length z. z ! j = 0" using Cons.prems by auto
  ultimately show ?case using Cons.IH by simp
qed

lemma dvd_room:
  assumes "2 ^ s dvd (a::nat)" "a < 2 ^ 64" "s \<le> 64"
  shows "a + 2 ^ s \<le> 2 ^ 64"
proof -
  obtain q where q: "a = 2 ^ s * q" using assms(1) by (auto simp: dvd_def)
  have e: "(2::nat) ^ 64 = 2 ^ s * 2 ^ (64 - s)"
    using assms(3) by (simp flip: power_add)
  have "2 ^ s * q < 2 ^ s * 2 ^ (64 - s)" using assms(2) q e by simp
  then have "q < 2 ^ (64 - s)" by simp
  then have "q + 1 \<le> 2 ^ (64 - s)" by simp
  then have "2 ^ s * (q + 1) \<le> (2::nat) ^ s * 2 ^ (64 - s)" by (rule mult_le_mono2)
  then show ?thesis unfolding q e by simp
qed

lemma unat_push_byte:
  assumes "k + 8 \<le> 64"
  shows "unat (push_bit k (ucast (x::byte)) :: uint) = unat x * 2 ^ k"
proof -
  have ux: "unat (ucast x :: uint) = unat x"
    by (simp add: unsigned_ucast_eq take_bit_nat_eq_self unsigned_less[of x, where 'a=nat, simplified] less_trans[OF unsigned_less])
  have "unat x < 2 ^ 8" using unsigned_less[of x, where 'a=nat] by simp
  then have "unat x * 2 ^ k < 2 ^ 8 * 2 ^ k" by simp
  also have "\<dots> = 2 ^ (k + 8)" by (simp add: power_add)
  also have "\<dots> \<le> (2::nat) ^ 64" using assms by (intro power_increasing) simp_all
  finally have lt: "unat x * 2 ^ k < 2 ^ 64" .
  have "unat (push_bit k (ucast x) :: uint) = take_bit 64 (push_bit k (unat (ucast x :: uint)))"
    by (simp add: unsigned_push_bit_eq)
  also have "\<dots> = take_bit 64 (unat x * 2 ^ k)"
    by (simp only: ux push_bit_eq_mult)
  also have "\<dots> = unat x * 2 ^ k"
    using lt by (simp add: take_bit_nat_eq_self)
  finally show ?thesis .
qed

lemma or_byte:
  assumes d: "2 ^ s dvd unat (w::uint)" and s: "8 \<le> s" "s \<le> 64"
  shows "unat (w OR push_bit (s - 8) (ucast (x::byte))) = unat w + unat x * 2 ^ (s - 8)"
proof -
  let ?p = "push_bit (s - 8) (ucast x) :: uint"
  have up: "unat ?p = unat x * 2 ^ (s - 8)" using s by (intro unat_push_byte) simp
  have tw: "take_bit s w = 0"
  proof -
    have "take_bit s (unat w) = 0" using d by (simp add: take_bit_eq_0_iff)
    then have "unat (take_bit s w) = 0" by (simp add: unsigned_take_bit_eq)
    then show ?thesis by (simp add: unat_eq_0)
  qed
  have disj: "\<not> bit w n \<or> \<not> bit ?p n" for n
  proof (cases "n < s")
    case True
    have "bit (take_bit s w) n = bit w n" using True by (simp add: bit_take_bit_iff)
    then show ?thesis using tw by simp
  next
    case False
    have "\<not> bit ?p n"
    proof
      assume "bit ?p n"
      then have "s - 8 \<le> n" and "bit (ucast x :: uint) (n - (s - 8))"
        by (simp_all add: bit_push_bit_iff)
      then have "bit x (n - (s - 8))" by (simp add: bit_ucast_iff)
      then have "n - (s - 8) < 8" using bit_imp_le_length[of x "n - (s - 8)"] by simp
      then show False using False s by linarith
    qed
    then show ?thesis ..
  qed
  have or: "w OR ?p = w + ?p" using disjunctive_add[of w ?p] disj by simp
  have "unat x < 2 ^ 8" using unsigned_less[of x, where 'a=nat] by simp
  then have "unat x * 2 ^ (s - 8) < 2 ^ 8 * 2 ^ (s - 8)" by simp
  also have "\<dots> = 2 ^ (8 + (s - 8))" by (simp only: power_add)
  also have "\<dots> = 2 ^ s" using s by simp
  finally have "unat x * 2 ^ (s - 8) < 2 ^ s" .
  moreover have "unat w + 2 ^ s \<le> 2 ^ 64"
    using dvd_room[OF d _ s(2)] unat_lt64[of w] by simp
  ultimately have "unat w + unat ?p < 2 ^ 64" using up by simp
  then have "unat (w + ?p) = unat w + unat ?p"
    by (simp add: unat_plus_if')
  then show ?thesis using or up by simp
qed

lemma shift_split:
  assumes "8 * L \<le> E"
  shows "(u * 256 ^ L + B) * 2 ^ (E - 8 * L) = u * 2 ^ E + B * (2::int) ^ (E - 8 * L)"
proof -
  have "(256::int) ^ L = 2 ^ (8 * L)" by (simp add: power_mult)
  moreover have "(2::int) ^ (8 * L) * 2 ^ (E - 8 * L) = 2 ^ E"
    using assms by (simp flip: power_add)
  ultimately show ?thesis by (simp add: algebra_simps)
qed

lemma SetBytes_loop_correct:
  assumes "8 dvd s" "8 \<le> s" "s \<le> 64"
    and "- 1 \<le> i" "i < int (length z)"
    and "0 \<le> i \<longrightarrow> 2 ^ s dvd unat (z ! nat i) \<and> (\<forall>j < nat i. z ! j = 0)"
    and "int (8 * length buf) \<le> (if 0 \<le> i then int s + 64 * i else 0)"
  shows "\<exists>z'. SetBytes_loop z i s buf = Inr z' \<and> length z' = length z \<and>
           int (val z') = int (val z) + big_SetBytes buf * 2 ^ (s + 64 * nat i - 8 * length buf)"
  using assms
proof (induction buf arbitrary: z i s)
  case Nil
  then show ?case by simp
next
  case (Cons x buf)
  have i0: "0 \<le> i" using Cons.prems(7) by (cases "0 \<le> i") simp_all
  define k where "k = nat i"
  have ik: "i = int k" using i0 by (simp add: k_def)
  have k: "k < length z" using Cons.prems(5) ik by simp
  have dv: "2 ^ s dvd unat (z ! k)" and zero: "\<forall>j < k. z ! j = 0"
    using Cons.prems(6) i0 by (simp_all add: k_def)
  have len: "8 * length buf + 8 \<le> s + 64 * k"
    using Cons.prems(7) i0 ik by simp
  define w' where "w' = (z ! k) OR push_bit (s - 8) (ucast x)"
  define z1 where "z1 = z[k := w']"
  have uw: "unat w' = unat (z ! k) + unat x * 2 ^ (s - 8)"
    unfolding w'_def using or_byte[OF dv Cons.prems(2,3)] .
  have "val z1 + 2 ^ (64 * k) * unat (z ! k) = val z + 2 ^ (64 * k) * unat w'"
    unfolding z1_def by (rule val_update[OF k])
  then have vz1n: "val z1 = val z + 2 ^ (64 * k) * (unat x * 2 ^ (s - 8))"
    unfolding uw by (simp add: algebra_simps)
  have vz1: "int (val z1) = int (val z) + uint x * 2 ^ (s - 8 + 64 * k)"
    unfolding vz1n by (simp add: power_add algebra_simps)
  have lz1: "length z1 = length z" by (simp add: z1_def)
  have step: "SetBytes_loop z i s (x # buf) =
      (if s - 8 = 0 then SetBytes_loop z1 (i - 1) 64 buf else SetBytes_loop z1 i (s - 8) buf)"
    using k i0 by (simp add: Let_def ik z1_def w'_def)
  show ?case
  proof (cases "s - 8 = 0")
    case True
    then have s8: "s = 8" using Cons.prems(2) by simp
    have len': "8 * length buf \<le> 64 * k" using len s8 by simp
    have p6: "0 \<le> i - 1 \<longrightarrow> 2 ^ 64 dvd unat (z1 ! nat (i - 1)) \<and> (\<forall>j < nat (i - 1). z1 ! j = 0)"
    proof
      assume a: "0 \<le> i - 1"
      then have k1: "nat (i - 1) = k - 1" "0 < k" using ik by simp_all
      have "z1 ! (k - 1) = 0" using zero k1 by (simp add: z1_def)
      moreover have "\<forall>j < k - 1. z1 ! j = 0" using zero by (simp add: z1_def)
      ultimately show "2 ^ 64 dvd unat (z1 ! nat (i - 1)) \<and> (\<forall>j < nat (i - 1). z1 ! j = 0)"
        unfolding k1 by simp
    qed
    have p7: "int (8 * length buf) \<le> (if 0 \<le> i - 1 then int 64 + 64 * (i - 1) else 0)"
      using len' ik by auto
    obtain z' where r: "SetBytes_loop z1 (i - 1) 64 buf = Inr z'" "length z' = length z1"
      and v: "int (val z') = int (val z1) + big_SetBytes buf * 2 ^ (64 + 64 * nat (i - 1) - 8 * length buf)"
    proof -
      have q: "8 dvd (64::nat)" "8 \<le> (64::nat)" "(64::nat) \<le> 64" "- 1 \<le> i - 1" "i - 1 < int (length z1)"
        using i0 Cons.prems(5) lz1 by simp_all
      show ?thesis using Cons.IH[of 64 "i - 1" z1, OF q p6 p7] that by blast
    qed
    have ex: "big_SetBytes buf * 2 ^ (64 + 64 * nat (i - 1) - 8 * length buf)
              = big_SetBytes buf * 2 ^ (64 * k - 8 * length buf)"
    proof (cases "k = 0")
      case True
      then have "buf = []" using len' by simp
      then show ?thesis by simp
    next
      case False
      then have "64 + 64 * nat (i - 1) = 64 * k" using ik by simp
      then show ?thesis by simp
    qed
    have "big_SetBytes (x # buf) * 2 ^ (s + 64 * nat i - 8 * length (x # buf))
          = (uint x * 256 ^ length buf + big_SetBytes buf) * 2 ^ (64 * k - 8 * length buf)"
      using s8 by (simp add: be_Cons k_def)
    also have "\<dots> = uint x * 2 ^ (64 * k) + big_SetBytes buf * 2 ^ (64 * k - 8 * length buf)"
      by (rule shift_split[OF len'])
    finally have "int (val z') = int (val z) + big_SetBytes (x # buf) * 2 ^ (s + 64 * nat i - 8 * length (x # buf))"
      using v vz1 ex s8 by simp
    then show ?thesis using r lz1 step True by simp
  next
    case False
    have s16: "16 \<le> s" using False Cons.prems(1,2) by (auto simp: dvd_def)
    have p1: "8 dvd s - 8" using Cons.prems(1) s16 by (simp add: dvd_diff_nat)
    have len': "8 * length buf \<le> s - 8 + 64 * k" using len s16 by simp
    have dv1: "2 ^ (s - 8) dvd unat (z ! k)"
      using dv power_le_dvd[of 2 s "unat (z ! k)" "s - 8"] by simp
    have p6: "0 \<le> i \<longrightarrow> 2 ^ (s - 8) dvd unat (z1 ! nat i) \<and> (\<forall>j < nat i. z1 ! j = 0)"
      using dv1 zero k uw by (simp add: z1_def k_def[symmetric])
    have p7: "int (8 * length buf) \<le> (if 0 \<le> i then int (s - 8) + 64 * i else 0)"
      using len' ik i0 by simp
    obtain z' where r: "SetBytes_loop z1 i (s - 8) buf = Inr z'" "length z' = length z1"
      and v: "int (val z') = int (val z1) + big_SetBytes buf * 2 ^ (s - 8 + 64 * nat i - 8 * length buf)"
    proof -
      have q: "8 \<le> s - 8" "s - 8 \<le> 64" "- 1 \<le> i" "i < int (length z1)"
        using s16 Cons.prems(3,4,5) lz1 by simp_all
      show ?thesis using Cons.IH[of "s - 8" i z1, OF p1 q p6 p7] that by blast
    qed
    have e: "s + 64 * nat i - 8 * length (x # buf) = s - 8 + 64 * k - 8 * length buf"
      using s16 by (simp add: k_def)
    have "big_SetBytes (x # buf) * 2 ^ (s + 64 * nat i - 8 * length (x # buf))
          = (uint x * 256 ^ length buf + big_SetBytes buf) * 2 ^ (s - 8 + 64 * k - 8 * length buf)"
      unfolding e by (simp add: be_Cons)
    also have "\<dots> = uint x * 2 ^ (s - 8 + 64 * k) + big_SetBytes buf * 2 ^ (s - 8 + 64 * k - 8 * length buf)"
      by (rule shift_split[OF len'])
    finally have "int (val z') = int (val z) + big_SetBytes (x # buf) * 2 ^ (s + 64 * nat i - 8 * length (x # buf))"
      using v vz1 by (simp add: k_def)
    then show ?thesis using r lz1 step False by simp
  qed
qed

lemma val_SetZero [simp]: "val (SetZero z) = 0"
  by (induction z) (simp_all add: SetZero_def)

lemma length_SetZero [simp]: "length (SetZero z) = length z"
  by (simp add: SetZero_def)

lemma SetBytes_correct:
  assumes "length buf \<le> 8 * length z"
  shows "\<exists>z'. SetBytes z buf = Inr z' \<and> length z' = length z \<and>
           int (val z') = big_SetBytes buf * 256 ^ (8 * length z - length buf)"
proof (cases "length z = 0")
  case True
  then have "buf = []" using assms by simp
  then show ?thesis using True by (simp add: SetBytes_def SetZero_def)
next
  case False
  let ?z = "SetZero z" and ?i = "int (length z) - 1"
  have ni: "nat ?i < length z" using False by (cases z) simp_all
  have p6: "0 \<le> ?i \<longrightarrow> 2 ^ 64 dvd unat (?z ! nat ?i) \<and> (\<forall>j < nat ?i. ?z ! j = 0)"
    using ni by (simp add: SetZero_def)
  have p7: "int (8 * length buf) \<le> (if 0 \<le> ?i then int 64 + 64 * ?i else 0)"
    using False assms by simp
  obtain z' where r: "SetBytes_loop ?z ?i 64 buf = Inr z'" "length z' = length ?z"
    and v: "int (val z') = int (val ?z) + big_SetBytes buf * 2 ^ (64 + 64 * nat ?i - 8 * length buf)"
  proof -
    have q: "8 dvd (64::nat)" "8 \<le> (64::nat)" "(64::nat) \<le> 64" "- 1 \<le> ?i" "?i < int (length ?z)"
      by simp_all
    show ?thesis using SetBytes_loop_correct[of 64 ?i ?z buf, OF q p6 p7] that by blast
  qed
  have "64 + 64 * nat ?i = 64 * length z" using False by (cases z) simp_all
  then have "64 + 64 * nat ?i - 8 * length buf = 8 * (8 * length z - length buf)"
    using assms by simp
  then have "(2::int) ^ (64 + 64 * nat ?i - 8 * length buf) = 256 ^ (8 * length z - length buf)"
    by (simp add: power_mult)
  then show ?thesis using r v by (simp add: SetBytes_def)
qed

lemma Bytes_SetBytes:
  assumes "length buf \<le> 8 * length z" "SetBytes z buf = Inr z'"
  shows "Bytes z' = buf @ replicate (8 * length z - length buf) 0"
proof -
  have l: "length z' = length z"
    and v: "int (val z') = big_SetBytes buf * 256 ^ (8 * length z - length buf)"
    using SetBytes_correct[OF assms(1)] assms(2) by auto
  have "big_SetBytes (Bytes z') = big_SetBytes (buf @ replicate (8 * length z - length buf) 0)"
    by (simp add: be_Bytes v be_append)
  moreover have "length (Bytes z') = length (buf @ replicate (8 * length z - length buf) 0)"
    using l assms(1) by simp
  ultimately show ?thesis by (rule be_inj[rotated])
qed

section \<open>Claims about SubtleInt\<close>

text \<open>
  Claim C8.  For slices \<open>a\<close> and \<open>b\<close> of the same length, \<open>a.Less(b)\<close> returns 1
  when the integer \<open>a\<close> stands for is strictly smaller than the one \<open>b\<close> stands
  for and 0 otherwise; \<open>a.Less(a)\<close> is 0.
\<close>

theorem Less_decides_order:
  "length a = length b \<Longrightarrow>
   Less a b = Inr (if Big a < Big b then 1 else 0) \<and> Less a a = Inr 0"
  by (simp add: Less_correct Big_val)

theorem Less_decides_order_witness:
  "length [0xFFFFFFFFFFFFFFFF, 1 :: uint] = length [0, 2 :: uint] \<and>
   Less [0xFFFFFFFFFFFFFFFF, 1] [0, 2] = Inr 1 \<and>
   Less [0, 2] [0xFFFFFFFFFFFFFFFF, 1] = Inr 0 \<and>
   Less [0xFFFFFFFFFFFFFFFF, 1] [0xFFFFFFFFFFFFFFFF, 1] = Inr 0"
  using Less_decides_order[of "[0xFFFFFFFFFFFFFFFF, 1]" "[0, 2]"]
        Less_decides_order[of "[0, 2]" "[0xFFFFFFFFFFFFFFFF, 1]"]
  by (simp add: Big_val)







text \<open>
  Claim C7, as stated, says that \<open>SetBytes\<close> keeps the integer value of a
  buffer shorter than the width.  It does not: the three bytes \<open>01 02 03\<close>
  (the integer \<open>0x010203\<close>) set a one-word SubtleInt to \<open>0x0102030000000000\<close>,
  and \<open>Bytes\<close> returns \<open>01 02 03 00 00 00 00 00\<close>.
\<close>

theorem SetBytes_short_buffer:
  "SetBytes (make 1) [1, 2, 3] = Inr [0x0102030000000000] \<and>
   Big [0x0102030000000000] = 0x0102030000000000 \<and>
   big_SetBytes [1, 2, 3] = 0x010203 \<and>
   Bytes [0x0102030000000000] = [1, 2, 3, 0, 0, 0, 0, 0]"
  by code_simp

text \<open>
  Claim C7, amended.  For a buffer no longer than the width in bytes,
  \<open>SetBytes\<close> does not panic; the buffer is placed at the most significant
  end, so the SubtleInt stands for the integer of the buffer times
  \<open>256 ^ (width - length)\<close>, and \<open>Bytes\<close> afterwards returns the buffer followed
  by zero bytes up to the full width.
\<close>

theorem SetBytes_left_aligned:
  assumes "length buf \<le> 8 * length z"
  shows "\<exists>z'. SetBytes z buf = Inr z' \<and> length z' = length z \<and>
           Big z' = big_SetBytes buf * 256 ^ (8 * length z - length buf) \<and>
           Bytes z' = buf @ replicate (8 * length z - length buf) 0"
proof -
  obtain z' where r: "SetBytes z buf = Inr z'" "length z' = length z"
    and v: "int (val z') = big_SetBytes buf * 256 ^ (8 * length z - length buf)"
    using SetBytes_correct[OF assms] by blast
  show ?thesis using r v Bytes_SetBytes[OF assms r(1)] by (simp add: Big_val)
qed

theorem SetBytes_left_aligned_witness:
  "length [1, 2, 3 :: byte] \<le> 8 * length (make 1 :: SubtleInt) \<and>
   (\<exists>z'. SetBytes (make 1) [1, 2, 3] = Inr z' \<and> Big z' = 0x0102030000000000 \<and>
      Bytes z' = [1, 2, 3] @ replicate 5 0)"
  using SetBytes_left_aligned[of "[1, 2, 3]" "make 1"]
  by (auto simp add: make_def be_Cons)

end
